theory Spec2Isabelle
  imports Main
begin

section \<open>The automaton: nodes and edges\<close>

text \<open>
  The source encodes an automaton in types: every state is an instantiation
  \<^verbatim>\<open>Node<accept, EDGES...>\<close> (usually through a struct that derives from it, so
  that states can name each other before they are complete), and every transition is an
  \<^verbatim>\<open>Edge<C, NEXT_NODE>\<close>.  Here the names of the types of a program are the elements
  of a type \<open>'q\<close>, and an edge holds its label and the name of its destination, which
  \<^verbatim>\<open>Edge\<close> leaves free: any type can stand for \<^verbatim>\<open>NEXT_NODE\<close>, and the source
  itself instantiates \<^verbatim>\<open>Edge<'a', int>\<close>.  An automaton maps every name to its node: it
  is what a program is once every name that an evaluation can reach has been instantiated
  as a node (the section on programs below has the instantiation, and the programs in
  which it fails).  A struct \<^verbatim>\<open>Q0 : Node<...>\<close> and its base class have the same
  accept flag and the same edges, so both are the same name here.
\<close>

datatype 'q edge = Edge (label: char) (next_node: 'q)

text \<open>\<^verbatim>\<open>Edge::check(c)\<close> is \<^verbatim>\<open>c == C\<close>.\<close>

definition check :: "'q edge \<Rightarrow> char \<Rightarrow> bool" where
  "check e c = (c = label e)"

record 'q node =
  accept :: bool
  edges :: "'q edge list"

type_synonym 'q automaton = "'q \<Rightarrow> 'q node"

definition is_terminal :: "'q node \<Rightarrow> bool" where
  "is_terminal N = (length (edges N) = 0)"

subsection \<open>Instantiating Node\<close>

text \<open>
  The parameter pack of \<^verbatim>\<open>Node\<close> takes any types.  A template argument is an
  \<^verbatim>\<open>Edge\<close> instantiation or some other type (\<^verbatim>\<open>int\<close>, say); the trait
  \<^verbatim>\<open>is_edge\<close> is true on its partial specialisation \<^verbatim>\<open>is_edge<Edge<c, T>>\<close>
  only, and there for every \<^verbatim>\<open>T\<close>, a node or not.  Instantiating \<^verbatim>\<open>Node\<close>
  evaluates \<^verbatim>\<open>static_assert((is_edge_v<EDGES> && ...))\<close>, a right fold of \<^verbatim>\<open>&&\<close>
  that is true on the empty pack: a failure is a compilation error, the value
  \<open>static_assert_failed\<close> here.  Using a member \<^verbatim>\<open>accept\<close>, \<^verbatim>\<open>match_any\<close> or
  \<^verbatim>\<open>dispatch\<close> of a type that is not a node is a compilation error as well, the value
  \<open>not_a_node\<close>.
\<close>

datatype 'q cpp_type = Edge_type "'q edge" | Other_type

fun is_edge_v :: "'q cpp_type \<Rightarrow> bool" where
  "is_edge_v (Edge_type e) = True"
| "is_edge_v _ = False"

datatype error = static_assert_failed | out_of_bounds | not_a_node

fun edges_of :: "'q cpp_type list \<Rightarrow> 'q edge list" where
  "edges_of [] = []"
| "edges_of (Edge_type e # ts) = e # edges_of ts"
| "edges_of (_ # ts) = edges_of ts"

definition Node :: "bool \<Rightarrow> 'q cpp_type list \<Rightarrow> error + 'q node" where
  "Node accept' EDGES =
     (if foldr (\<lambda>t b. is_edge_v t \<and> b) EDGES True
      then Inr \<lparr>accept = accept', edges = edges_of EDGES\<rparr>
      else Inl static_assert_failed)"

subsection \<open>match_any and the transition finder\<close>

text \<open>
  \<^verbatim>\<open>match_any<c>\<close> is the fold \<^verbatim>\<open>(EDGES::check(c) || ...)\<close>, a right fold of
  \<^verbatim>\<open>||\<close> that is false on the empty pack.
\<close>

definition match_any :: "'q node \<Rightarrow> char \<Rightarrow> bool" where
  "match_any N c = foldr (\<lambda>e b. check e c \<or> b) (edges N) False"

text \<open>
  \<^verbatim>\<open>TransitionFinder<c, NODE, FIRST, REST...>\<close> takes \<^verbatim>\<open>FIRST::next\<close> when
  \<^verbatim>\<open>FIRST::check(c)\<close> and the result on \<^verbatim>\<open>REST...\<close> otherwise; on the empty pack
  the result is \<^verbatim>\<open>NODE\<close>.
\<close>

fun TransitionFinder :: "char \<Rightarrow> 'q \<Rightarrow> 'q edge list \<Rightarrow> 'q" where
  "TransitionFinder c NODE (FIRST # REST) =
     (if check FIRST c then next_node FIRST else TransitionFinder c NODE REST)"
| "TransitionFinder c NODE [] = NODE"

text \<open>\<^verbatim>\<open>Node::next<c>\<close>, the finder started on the node itself and all its edges.\<close>

definition Node_next :: "'q automaton \<Rightarrow> 'q \<Rightarrow> char \<Rightarrow> 'q" where
  "Node_next A N c = TransitionFinder c N (edges (A N))"

section \<open>The compile-time runner\<close>

text \<open>
  A \<^verbatim>\<open>FixedString<N>\<close> copies the \<open>N\<close> characters of a \<^verbatim>\<open>const char (&)[N]\<close>.
  The array of a string literal holds the characters of the literal and one terminating
  NUL, which is what \<open>literal\<close> builds.
\<close>

definition NUL :: char where
  "NUL = CHR 0x00"

definition FixedString :: "char list \<Rightarrow> char list" where
  "FixedString str = map (\<lambda>i. str ! i) [0 ..< length str]"

definition literal :: "string \<Rightarrow> char list" where
  "literal s = FixedString (s @ [NUL])"

text \<open>
  \<^verbatim>\<open>CTDFARunner<CURRENT, S, INDEX>::run()\<close>.  It reads \<^verbatim>\<open>S.data[INDEX]\<close>; in a
  constant expression a read past the array is an error, the value \<open>out_of_bounds\<close> here.
  \<^verbatim>\<open>INDEX\<close> is a \<^verbatim>\<open>size_t\<close>.
\<close>

function CTDFARunner_run :: "'q automaton \<Rightarrow> 'q \<Rightarrow> char list \<Rightarrow> nat \<Rightarrow> error + bool" where
  "CTDFARunner_run A CURRENT S INDEX =
     (if length S \<le> INDEX then Inl out_of_bounds
      else let c = S ! INDEX in
        if c = NUL then Inr (accept (A CURRENT))
        else if match_any (A CURRENT) c
          then CTDFARunner_run A (Node_next A CURRENT c) S (INDEX + 1)
        else Inr False)"
  by pat_completeness auto
termination
  by (relation "measure (\<lambda>(A, CURRENT, S, INDEX). length S - INDEX)") auto

declare CTDFARunner_run.simps [simp del]

text \<open>The static entry point \<^verbatim>\<open>CTDFARunner<Q, "...">::run()\<close> on a literal.\<close>

definition evaluate_static :: "'q automaton \<Rightarrow> 'q \<Rightarrow> string \<Rightarrow> error + bool" where
  "evaluate_static A start s = CTDFARunner_run A start (literal s) 0"

section \<open>The run-time runner\<close>

text \<open>
  The fold expression of \<^verbatim>\<open>Node::dispatch\<close>,
  \<^verbatim>\<open>((EDGES::check(c) ? (result = helper(...), true) : false) || ...)\<close>, goes through
  the edges in order and stops at the first one whose check holds (\<^verbatim>\<open>||\<close> does not
  evaluate its right operand once the left one is true).  \<open>dispatch_fold\<close> returns the
  value of the fold and the variable \<^verbatim>\<open>result\<close> after it; \<open>helper\<close> is the call
  \<^verbatim>\<open>RTDFARunner<typename EDGES::next>::helper(input, index + 1)\<close> as a function of
  the destination.
\<close>

fun dispatch_fold :: "('q \<Rightarrow> 'r) \<Rightarrow> char \<Rightarrow> 'q edge list \<Rightarrow> 'r \<Rightarrow> bool \<times> 'r" where
  "dispatch_fold helper c [] result = (False, result)"
| "dispatch_fold helper c (e # es) result =
     (if check e c then (True, helper (next_node e)) else dispatch_fold helper c es result)"

text \<open>
  \<^verbatim>\<open>Node::dispatch(input, index)\<close>, with \<^verbatim>\<open>RTDFARunner<N>::helper\<close> (which only
  calls \<^verbatim>\<open>N::dispatch\<close>) unfolded in the recursive call.  \<^verbatim>\<open>index\<close> is an
  \<^verbatim>\<open>int\<close> and \<^verbatim>\<open>input.length()\<close> a \<^verbatim>\<open>size_t\<close>: the comparison converts the
  index to \<^verbatim>\<open>size_t\<close>, where a negative index is larger than the length of any
  string, so the test also holds for every negative index.  Inputs are shorter than
  \<open>2 ^ 31\<close> characters, so that \<^verbatim>\<open>index + 1\<close> stays an \<^verbatim>\<open>int\<close>.
\<close>

function dispatch :: "'q automaton \<Rightarrow> 'q \<Rightarrow> string \<Rightarrow> int \<Rightarrow> bool" where
  "dispatch A N input index =
     (if index < 0 \<or> int (length input) \<le> index then accept (A N)
      else let c = input ! nat index;
               result = False
           in snd (dispatch_fold (\<lambda>n. dispatch A n input (index + 1)) c (edges (A N)) result))"
  by pat_completeness auto
termination
  by (relation "measure (\<lambda>(A, N, input, index). nat (int (length input) - index))") auto

declare dispatch.simps [simp del]

definition RTDFARunner_helper :: "'q automaton \<Rightarrow> 'q \<Rightarrow> string \<Rightarrow> int \<Rightarrow> bool" where
  "RTDFARunner_helper A CURRENT input index = dispatch A CURRENT input index"

definition RTDFARunner_run :: "'q automaton \<Rightarrow> 'q \<Rightarrow> string \<Rightarrow> bool" where
  "RTDFARunner_run A CURRENT input = RTDFARunner_helper A CURRENT input 0"

section \<open>The frames of an evaluation\<close>

text \<open>
  The same two functions, returning the frames that are on the stack when the innermost
  call returns instead of the verdict: the frame of the call itself, then the frames of
  the call it makes, if it makes one.  A frame is the node and the position of a call
  (for the compile-time runner one instantiation \<^verbatim>\<open>CTDFARunner<CURRENT, S, INDEX>\<close>).
\<close>

function CTDFARunner_frames :: "'q automaton \<Rightarrow> 'q \<Rightarrow> char list \<Rightarrow> nat \<Rightarrow> ('q \<times> nat) list" where
  "CTDFARunner_frames A CURRENT S INDEX = (CURRENT, INDEX) #
     (if length S \<le> INDEX then []
      else let c = S ! INDEX in
        if c = NUL then []
        else if match_any (A CURRENT) c
          then CTDFARunner_frames A (Node_next A CURRENT c) S (INDEX + 1)
        else [])"
  by pat_completeness auto
termination
  by (relation "measure (\<lambda>(A, CURRENT, S, INDEX). length S - INDEX)") auto

declare CTDFARunner_frames.simps [simp del]

function dispatch_frames :: "'q automaton \<Rightarrow> 'q \<Rightarrow> string \<Rightarrow> int \<Rightarrow> ('q \<times> int) list" where
  "dispatch_frames A N input index = (N, index) #
     (if index < 0 \<or> int (length input) \<le> index then []
      else let c = input ! nat index;
               result = []
           in snd (dispatch_fold (\<lambda>n. dispatch_frames A n input (index + 1)) c (edges (A N)) result))"
  by pat_completeness auto
termination
  by (relation "measure (\<lambda>(A, N, input, index). nat (int (length input) - index))") auto

declare dispatch_frames.simps [simp del]

section \<open>The automata of the source\<close>

text \<open>\<^verbatim>\<open>TEST_MATCH_ANY\<close>: \<^verbatim>\<open>Q1 = Node<true>\<close>, \<^verbatim>\<open>Q0 = Node<false, Edge<'0', Q1>>\<close>.\<close>

datatype q2 = Q0 | Q1

fun TEST_MATCH_ANY :: "q2 automaton" where
  "TEST_MATCH_ANY Q1 = \<lparr>accept = True, edges = []\<rparr>"
| "TEST_MATCH_ANY Q0 = \<lparr>accept = False, edges = [Edge CHR ''0'' Q1]\<rparr>"

text \<open>\<^verbatim>\<open>DFA_01_STAR\<close>, four states.\<close>

datatype q4 = Q0 | Q1 | Q2 | Q3

fun DFA_01_STAR :: "q4 automaton" where
  "DFA_01_STAR Q0 = \<lparr>accept = True, edges = [Edge CHR ''0'' Q1]\<rparr>"
| "DFA_01_STAR Q1 = \<lparr>accept = False, edges = [Edge CHR ''1'' Q2]\<rparr>"
| "DFA_01_STAR Q2 = \<lparr>accept = True, edges = [Edge CHR ''0'' Q3]\<rparr>"
| "DFA_01_STAR Q3 = \<lparr>accept = False, edges = [Edge CHR ''1'' Q2]\<rparr>"

text \<open>\<^verbatim>\<open>DFA_BRANCH\<close>, three states.\<close>

datatype q3 = Q0 | Q1 | Q2

fun DFA_BRANCH :: "q3 automaton" where
  "DFA_BRANCH Q0 = \<lparr>accept = False, edges = [Edge CHR ''0'' Q1, Edge CHR ''1'' Q2]\<rparr>"
| "DFA_BRANCH Q1 = \<lparr>accept = True, edges = []\<rparr>"
| "DFA_BRANCH Q2 = \<lparr>accept = True, edges = []\<rparr>"

section \<open>Automata for the cases the source has no example of\<close>

text \<open>
  \<open>DFA_NUL\<close> has an edge labelled NUL: \<^verbatim>\<open>P0 = Node<false, Edge<'\0', P1>>\<close>,
  \<^verbatim>\<open>P1 = Node<true>\<close>.  \<open>DFA_DUP\<close> declares two edges with the label \<^verbatim>\<open>'a'\<close> on
  one state, to a rejecting and to an accepting state in this order, and loops on
  \<^verbatim>\<open>'b'\<close>: \<^verbatim>\<open>D0 = Node<false, Edge<'a', D1>, Edge<'a', D2>, Edge<'b', D0>>\<close>,
  \<^verbatim>\<open>D1 = Node<false>\<close>, \<^verbatim>\<open>D2 = Node<true>\<close>.
\<close>

datatype p2 = P0 | P1

fun DFA_NUL :: "p2 automaton" where
  "DFA_NUL P0 = \<lparr>accept = False, edges = [Edge NUL P1]\<rparr>"
| "DFA_NUL P1 = \<lparr>accept = True, edges = []\<rparr>"

datatype d3 = D0 | D1 | D2

fun DFA_DUP :: "d3 automaton" where
  "DFA_DUP D0 = \<lparr>accept = False, edges = [Edge CHR ''a'' D1, Edge CHR ''a'' D2, Edge CHR ''b'' D0]\<rparr>"
| "DFA_DUP D1 = \<lparr>accept = False, edges = []\<rparr>"
| "DFA_DUP D2 = \<lparr>accept = True, edges = []\<rparr>"

section \<open>Programs\<close>

text \<open>
  A program declares nodes by name, in one of the two ways of the source:
  \<^verbatim>\<open>struct T : Node<accept, EDGES...> {};\<close>, where the base class is instantiated at
  the definition of the struct, and \<^verbatim>\<open>using T = Node<accept, EDGES...>;\<close>, where the
  alias only names the specialisation, which is instantiated when a member of it is first
  used.  A name that the program does not declare so stands for any other type
  (\<^verbatim>\<open>int\<close>).
\<close>

datatype 'q decl = Struct bool "'q cpp_type list" | Alias bool "'q cpp_type list"

type_synonym 'q program = "('q \<times> 'q decl) list"

text \<open>Completing the type \<open>T\<close>, to use one of the members of a node.\<close>

definition instantiate :: "'q program \<Rightarrow> 'q \<Rightarrow> error + 'q node" where
  "instantiate P T =
     (case map_of P T of
        None \<Rightarrow> Inl not_a_node
      | Some (Struct accept' EDGES) \<Rightarrow> Node accept' EDGES
      | Some (Alias accept' EDGES) \<Rightarrow> Node accept' EDGES)"

text \<open>The definitions of the structs, in the order of the program.\<close>

fun struct_definitions :: "'q program \<Rightarrow> error + unit" where
  "struct_definitions [] = Inr ()"
| "struct_definitions ((T, Struct accept' EDGES) # ds) =
     (case Node accept' EDGES of Inl err \<Rightarrow> Inl err | Inr N \<Rightarrow> struct_definitions ds)"
| "struct_definitions ((T, Alias accept' EDGES) # ds) = struct_definitions ds"

text \<open>
  \<^verbatim>\<open>CTDFARunner<CURRENT, S, INDEX>::run()\<close> in a program.  After the read of
  \<^verbatim>\<open>S.data[INDEX]\<close>, both branches use a member of \<^verbatim>\<open>CURRENT\<close>
  (\<^verbatim>\<open>CURRENT::accept\<close> or \<^verbatim>\<open>CURRENT::match_any<c>\<close>), which instantiates it; the
  branches that \<^verbatim>\<open>if constexpr\<close> discards instantiate nothing, so the destination of an
  edge is instantiated only when the evaluation goes there.
\<close>

function CTDFARunner_run_in :: "'q program \<Rightarrow> 'q \<Rightarrow> char list \<Rightarrow> nat \<Rightarrow> error + bool" where
  "CTDFARunner_run_in P CURRENT S INDEX =
     (if length S \<le> INDEX then Inl out_of_bounds
      else let c = S ! INDEX in
        case instantiate P CURRENT of
          Inl err \<Rightarrow> Inl err
        | Inr N \<Rightarrow>
            if c = NUL then Inr (accept N)
            else if match_any N c
              then CTDFARunner_run_in P (TransitionFinder c CURRENT (edges N)) S (INDEX + 1)
            else Inr False)"
  by pat_completeness auto
termination
  by (relation "measure (\<lambda>(P, CURRENT, S, INDEX). length S - INDEX)") auto

declare CTDFARunner_run_in.simps [simp del]

text \<open>A program with \<^verbatim>\<open>CTDFARunner<start, "...">::run()\<close> in it.\<close>

definition program_evaluate_static :: "'q program \<Rightarrow> 'q \<Rightarrow> string \<Rightarrow> error + bool" where
  "program_evaluate_static P start s =
     (case struct_definitions P of
        Inl err \<Rightarrow> Inl err
      | Inr _ \<Rightarrow> CTDFARunner_run_in P start (literal s) 0)"

text \<open>
  The body of \<^verbatim>\<open>Node::dispatch\<close> names \<^verbatim>\<open>RTDFARunner<typename EDGES::next>::helper\<close>
  for every edge, whatever the input: compiling \<^verbatim>\<open>RTDFARunner<start>::run\<close>
  instantiates \<^verbatim>\<open>start\<close> and, from every type it instantiates as a node, the
  destinations of all its edges.
\<close>

inductive_set RTDFARunner_instantiated :: "'q program \<Rightarrow> 'q \<Rightarrow> 'q set" for P :: "'q program" and start :: 'q where
  start: "start \<in> RTDFARunner_instantiated P start"
| helper: "T \<in> RTDFARunner_instantiated P start \<Longrightarrow> instantiate P T = Inr N \<Longrightarrow> e \<in> set (edges N)
    \<Longrightarrow> next_node e \<in> RTDFARunner_instantiated P start"

text \<open>
  The automaton of a program, for the names that are instantiated as nodes.  (The node
  given to the other names is never used: no runner gets to them in a program that
  compiles.)
\<close>

definition automaton_of :: "'q program \<Rightarrow> 'q automaton" where
  "automaton_of P T =
     (case instantiate P T of Inr N \<Rightarrow> N | Inl err \<Rightarrow> \<lparr>accept = False, edges = []\<rparr>)"

text \<open>
  A program with a call of \<^verbatim>\<open>RTDFARunner<start>::run(input)\<close> in it: \<open>None\<close> when
  the program does not compile, the verdict of the call otherwise.
\<close>

definition program_evaluate_dynamic :: "'q program \<Rightarrow> 'q \<Rightarrow> string \<Rightarrow> bool option" where
  "program_evaluate_dynamic P start input =
     (if struct_definitions P = Inr () \<and>
         (\<forall>T\<in>RTDFARunner_instantiated P start. \<exists>N. instantiate P T = Inr N)
      then Some (RTDFARunner_run (automaton_of P) start input)
      else None)"

text \<open>
  Three programs.  \<open>BAD_EDGE\<close> is
  \<^verbatim>\<open>struct B0 : Node<false, Edge<'0', int>> {};\<close>, \<open>B_int\<close> standing for
  \<^verbatim>\<open>int\<close>.  \<open>LAZY\<close> is
  \<^verbatim>\<open>using L1 = Node<true, int>; struct L0 : Node<false, Edge<'0', L1>> {};\<close>.
  \<open>BAD_STRUCT\<close> is \<^verbatim>\<open>struct S0 : Node<true, int> {};\<close>.  The fourth,
  \<open>DFA_BRANCH_program\<close>, is the namespace \<^verbatim>\<open>DFA_BRANCH\<close> of the source.
\<close>

datatype b2 = B0 | B_int

definition BAD_EDGE :: "b2 program" where
  "BAD_EDGE = [(B0, Struct False [Edge_type (Edge CHR ''0'' B_int)])]"

datatype l2 = L0 | L1

definition LAZY :: "l2 program" where
  "LAZY = [(L1, Alias True [Other_type]), (L0, Struct False [Edge_type (Edge CHR ''0'' L1)])]"

datatype s1 = S0

definition BAD_STRUCT :: "s1 program" where
  "BAD_STRUCT = [(S0, Struct True [Other_type])]"

definition DFA_BRANCH_program :: "q3 program" where
  "DFA_BRANCH_program =
     [(q3.Q0, Struct False [Edge_type (Edge CHR ''0'' q3.Q1), Edge_type (Edge CHR ''1'' q3.Q2)]),
      (q3.Q1, Struct True []),
      (q3.Q2, Struct True [])]"

section \<open>The run over a list of characters\<close>

text \<open>
  The run of an automaton over a list of characters, by recursion on the list: what both
  runners compute on the characters they consume.
\<close>

fun walk :: "'q automaton \<Rightarrow> 'q \<Rightarrow> string \<Rightarrow> bool" where
  "walk A q [] = accept (A q)"
| "walk A q (c # cs) =
     (case find (\<lambda>e. check e c) (edges (A q)) of None \<Rightarrow> False | Some e \<Rightarrow> walk A (next_node e) cs)"

section \<open>Auxiliary facts\<close>

lemma literal_eq: "literal s = s @ [NUL]"
  unfolding literal_def FixedString_def by (rule map_nth)

lemma match_any_find: "match_any N c = (find (\<lambda>e. check e c) (edges N) \<noteq> None)"
proof -
  have "foldr (\<lambda>e b. check e c \<or> b) es False = (find (\<lambda>e. check e c) es \<noteq> None)" for es :: "'a edge list"
    by (induction es) auto
  then show ?thesis by (simp add: match_any_def)
qed

lemma TransitionFinder_find:
  "TransitionFinder c N es = (case find (\<lambda>e. check e c) es of None \<Rightarrow> N | Some e \<Rightarrow> next_node e)"
  by (induction es) auto

lemma dispatch_fold_find:
  "dispatch_fold helper c es result =
     (case find (\<lambda>e. check e c) es of None \<Rightarrow> (False, result) | Some e \<Rightarrow> (True, helper (next_node e)))"
  by (induction es) auto

lemma find_first:
  "\<forall>e'\<in>set pre. label e' \<noteq> label e \<Longrightarrow> find (\<lambda>x. check x (label e)) (pre @ e # post) = Some e"
  by (induction pre) (auto simp: check_def)

text \<open>One step of each runner, as an equation over the first matching edge.\<close>

lemma CTDFARunner_run_step:
  "CTDFARunner_run A q S i =
     (if length S \<le> i then Inl out_of_bounds
      else if S ! i = NUL then Inr (accept (A q))
      else case find (\<lambda>e. check e (S ! i)) (edges (A q)) of
             None \<Rightarrow> Inr False
           | Some e \<Rightarrow> CTDFARunner_run A (next_node e) S (Suc i))"
  by (subst CTDFARunner_run.simps)
     (auto simp: Let_def match_any_find Node_next_def TransitionFinder_find split: option.splits)

lemma dispatch_step:
  "dispatch A q s i =
     (if i < 0 \<or> int (length s) \<le> i then accept (A q)
      else case find (\<lambda>e. check e (s ! nat i)) (edges (A q)) of
             None \<Rightarrow> False
           | Some e \<Rightarrow> dispatch A (next_node e) s (i + 1))"
  by (subst dispatch.simps) (auto simp: Let_def dispatch_fold_find split: option.splits)

lemma CTDFARunner_frames_step:
  "CTDFARunner_frames A q S i = (q, i) #
     (if length S \<le> i \<or> S ! i = NUL then []
      else case find (\<lambda>e. check e (S ! i)) (edges (A q)) of
             None \<Rightarrow> []
           | Some e \<Rightarrow> CTDFARunner_frames A (next_node e) S (Suc i))"
  by (subst CTDFARunner_frames.simps)
     (auto simp: Let_def match_any_find Node_next_def TransitionFinder_find split: option.splits)

lemma dispatch_frames_step:
  "dispatch_frames A q s i = (q, i) #
     (if i < 0 \<or> int (length s) \<le> i then []
      else case find (\<lambda>e. check e (s ! nat i)) (edges (A q)) of
             None \<Rightarrow> []
           | Some e \<Rightarrow> dispatch_frames A (next_node e) s (i + 1))"
  by (subst dispatch_frames.simps) (auto simp: Let_def dispatch_fold_find split: option.splits)

lemma dispatch_walk: "n \<le> length s \<Longrightarrow> dispatch A q s (int n) = walk A q (drop n s)"
proof (induction "length s - n" arbitrary: n q)
  case 0
  then show ?case by (subst dispatch_step) simp
next
  case (Suc k)
  then have n: "n < length s" by simp
  then have d: "drop n s = s ! n # drop (Suc n) s" by (simp add: Cons_nth_drop_Suc)
  have k: "k = length s - Suc n" using Suc.hyps(2) by simp
  have ih: "dispatch A q' s (int n + 1) = walk A q' (drop (Suc n) s)" for q'
    using Suc.hyps(1) [OF k, of q'] n by (simp add: add.commute)
  show ?case
    by (subst dispatch_step) (use n in \<open>simp add: d ih split: option.splits\<close>)
qed

lemma run_walk:
  "n \<le> length s \<Longrightarrow>
   CTDFARunner_run A q (s @ [NUL]) n = Inr (walk A q (takeWhile (\<lambda>c. c \<noteq> NUL) (drop n s)))"
proof (induction "length s - n" arbitrary: n q)
  case 0
  then show ?case by (subst CTDFARunner_run_step) (simp add: nth_append)
next
  case (Suc k)
  then have n: "n < length s" by simp
  then have d: "drop n s = s ! n # drop (Suc n) s" by (simp add: Cons_nth_drop_Suc)
  have k: "k = length s - Suc n" using Suc.hyps(2) by simp
  have ih: "CTDFARunner_run A q' (s @ [NUL]) (Suc n) = Inr (walk A q' (takeWhile (\<lambda>c. c \<noteq> NUL) (drop (Suc n) s)))" for q'
    using Suc.hyps(1) [OF k, of q'] n by simp
  show ?case
    by (subst CTDFARunner_run_step) (use n in \<open>simp add: d ih nth_append split: option.splits\<close>)
qed

lemma evaluate_static_walk:
  "evaluate_static A q s = Inr (walk A q (takeWhile (\<lambda>c. c \<noteq> NUL) s))"
  using run_walk [of 0 s A q] by (simp add: evaluate_static_def literal_eq)

lemma RTDFARunner_run_walk: "RTDFARunner_run A q s = walk A q s"
  using dispatch_walk [of 0 s A q] by (simp add: RTDFARunner_run_def RTDFARunner_helper_def)

lemma runners_agree: 
  assumes "NUL \<notin> set s"
  shows "evaluate_static A q s = Inr (RTDFARunner_run A q s)"
proof -
  have tw: "takeWhile (\<lambda>c. c \<noteq> NUL) s = s"
    using assms by auto
  show ?thesis
    unfolding evaluate_static_walk RTDFARunner_run_walk tw by (rule refl)
qed

subsection \<open>Frames\<close>

lemma CTDFARunner_frames_positions:
  "map snd (CTDFARunner_frames A q S i) = [i ..< i + length (CTDFARunner_frames A q S i)]"
proof (induction "length S - i" arbitrary: i q)
  case 0
  then show ?case by (subst (1 2) CTDFARunner_frames_step) (simp add: upt_conv_Cons del: upt_Suc)
next
  case (Suc k)
  then have k: "k = length S - Suc i" by simp
  note ih = Suc.hyps(1) [OF k]
  show ?case
    by (subst (1 2) CTDFARunner_frames_step)
       (simp add: ih upt_conv_Cons split: option.splits del: upt_Suc)
qed

lemma CTDFARunner_frames_length:
  "i \<le> length s \<Longrightarrow> length (CTDFARunner_frames A q (s @ [NUL]) i) \<le> length s + 1 - i"
proof (induction "length s - i" arbitrary: i q)
  case 0
  then show ?case by (subst CTDFARunner_frames_step) (simp add: nth_append)
next
  case (Suc k)
  then have i: "i < length s" by simp
  have k: "k = length s - Suc i" using Suc.hyps(2) by simp
  have ih: "Suc (length (CTDFARunner_frames A q' (s @ [NUL]) (Suc i))) \<le> Suc (length s) - i" for q'
    using Suc.hyps(1) [OF k, of q'] i by simp
  show ?case
    by (subst CTDFARunner_frames_step) (use i in \<open>auto simp: ih nth_append split: option.splits\<close>)
qed

lemma CTDFARunner_frames_last:
  "CTDFARunner_run A q S i =
     (case last (CTDFARunner_frames A q S i) of
        (q', i') \<Rightarrow> if length S \<le> i' then Inl out_of_bounds else Inr (S ! i' = NUL \<and> accept (A q')))"
proof (induction "length S - i" arbitrary: i q)
  case 0
  then show ?case
    by (subst CTDFARunner_run_step, subst CTDFARunner_frames_step) simp
next
  case (Suc k)
  then have k: "k = length S - Suc i" by simp
  note ih = Suc.hyps(1) [OF k]
  have ne: "CTDFARunner_frames A q' S j \<noteq> []" for q' j
    by (subst CTDFARunner_frames_step) simp
  show ?case
    by (subst CTDFARunner_run_step, subst CTDFARunner_frames_step)
       (use Suc.hyps(2) in \<open>simp add: ih ne split: option.splits\<close>)
qed

lemma dispatch_frames_positions:
  "map snd (dispatch_frames A q s i) = map (\<lambda>k. i + int k) [0 ..< length (dispatch_frames A q s i)]"
proof (induction "nat (int (length s) - i)" arbitrary: i q)
  case 0
  then show ?case by (subst (1 2) dispatch_frames_step) simp
next
  case (Suc k)
  then have k: "k = nat (int (length s) - (i + 1))" by simp
  note ih = Suc.hyps(1) [OF k]
  have shift: "map (\<lambda>k. i + int k) [0 ..< Suc n] = i # map (\<lambda>k. i + 1 + int k) [0 ..< n]" for n
    by (simp add: upt_rec [of 0] map_Suc_upt [symmetric] del: upt_Suc)
  show ?case
    by (subst (1 2) dispatch_frames_step) (simp add: ih shift split: option.splits del: upt_Suc)
qed

lemma dispatch_frames_length:
  "n \<le> length s \<Longrightarrow> length (dispatch_frames A q s (int n)) \<le> length s + 1 - n"
proof (induction "length s - n" arbitrary: n q)
  case 0
  then show ?case by (subst dispatch_frames_step) simp
next
  case (Suc k)
  then have n: "n < length s" by simp
  have k: "k = length s - Suc n" using Suc.hyps(2) by simp
  have ih: "Suc (length (dispatch_frames A q' s (int n + 1))) \<le> Suc (length s) - n" for q'
    using Suc.hyps(1) [OF k, of q'] n by (simp add: add.commute)
  show ?case
    by (subst dispatch_frames_step) (use n in \<open>auto simp: ih split: option.splits\<close>)
qed

lemma dispatch_frames_last:
  "dispatch A q s i =
     (case last (dispatch_frames A q s i) of
        (q', i') \<Rightarrow> (i' < 0 \<or> int (length s) \<le> i') \<and> accept (A q'))"
proof (induction "nat (int (length s) - i)" arbitrary: i q)
  case 0
  then show ?case
    by (subst dispatch_step, subst dispatch_frames_step) simp
next
  case (Suc k)
  then have k: "k = nat (int (length s) - (i + 1))" by simp
  note ih = Suc.hyps(1) [OF k]
  have ne: "dispatch_frames A q' s j \<noteq> []" for q' j
    by (subst dispatch_frames_step) simp
  show ?case
    by (subst dispatch_step, subst dispatch_frames_step)
       (use Suc.hyps(2) in \<open>auto simp: ih ne split: option.splits\<close>)
qed

lemma dispatch_negative_index: "index < 0 \<Longrightarrow> dispatch A N input index = accept (A N)"
  by (subst dispatch_step) simp

lemma CTDFARunner_run_past_the_array: "CTDFARunner_run A N S (length S) = Inl out_of_bounds"
  by (subst CTDFARunner_run_step) simp

lemma foldr_is_edge: "foldr (\<lambda>t b. is_edge_v t \<and> b) EDGES True = (\<forall>t\<in>set EDGES. is_edge_v t)"
  by (induction EDGES) auto

lemma match_any_next:
  "match_any (A N) c \<Longrightarrow> \<exists>e\<in>set (edges (A N)). check e c \<and> Node_next A N c = next_node e"
proof -
  assume "match_any (A N) c"
  then obtain e where f: "find (\<lambda>e. check e c) (edges (A N)) = Some e"
    by (auto simp: match_any_find)
  then have "e \<in> set (edges (A N))" and "check e c"
    by (auto simp: find_Some_iff)
  moreover have "Node_next A N c = next_node e"
    by (simp add: Node_next_def TransitionFinder_find f)
  ultimately show ?thesis by blast
qed

lemma CTDFARunner_frames_advance:
  "Suc k < length (CTDFARunner_frames A q S i) \<Longrightarrow>
   match_any (A (fst (CTDFARunner_frames A q S i ! k))) (S ! snd (CTDFARunner_frames A q S i ! k)) \<and>
   fst (CTDFARunner_frames A q S i ! Suc k) =
     Node_next A (fst (CTDFARunner_frames A q S i ! k)) (S ! snd (CTDFARunner_frames A q S i ! k))"
proof (induction k arbitrary: q i)
  case 0
  have hd: "CTDFARunner_frames A q' S j ! 0 = (q', j)" for q' j
    by (subst CTDFARunner_frames_step) simp
  from 0 show ?case
    by (subst (1 2 3 4 5) CTDFARunner_frames_step, subst (asm) CTDFARunner_frames_step)
       (auto simp: hd match_any_find Node_next_def TransitionFinder_find split: option.splits if_splits)
next
  case (Suc k)
  from Suc.prems show ?case
    by (subst (1 2 3 4 5) CTDFARunner_frames_step, subst (asm) CTDFARunner_frames_step)
       (auto split: option.splits if_splits dest: Suc.IH)
qed

subsection \<open>Programs\<close>

lemma Node_Inl: "Node accept' EDGES = Inl err \<Longrightarrow> err = static_assert_failed"
  by (simp add: Node_def split: if_splits)

lemma Node_fails_iff: "(Node accept' EDGES = Inl static_assert_failed) = (\<exists>t\<in>set EDGES. \<not> is_edge_v t)"
  by (simp add: Node_def foldr_is_edge)

lemma struct_definitions_bad:
  "(T, Struct accept' EDGES) \<in> set P \<Longrightarrow> \<exists>t\<in>set EDGES. \<not> is_edge_v t \<Longrightarrow>
   struct_definitions P = Inl static_assert_failed"
proof (induction P rule: struct_definitions.induct)
  case 1
  then show ?case by simp
next
  case (2 T0 a0 E0 ds)
  show ?case
  proof (cases "Node a0 E0")
    case (Inl err)
    then show ?thesis using Node_Inl [OF Inl] by simp
  next
    case (Inr N)
    then have "\<not> (\<exists>t\<in>set E0. \<not> is_edge_v t)"
      using Node_fails_iff [of a0 E0] by simp
    with 2 Inr show ?thesis by auto
  qed
next
  case (3 T0 a0 E0 ds)
  then show ?case by auto
qed

lemma CTDFARunner_run_in_error:
  "instantiate P T = Inl err \<Longrightarrow> INDEX < length S \<Longrightarrow> CTDFARunner_run_in P T S INDEX = Inl err"
  by (subst CTDFARunner_run_in.simps) simp

lemma automaton_of_instantiate: "instantiate P T = Inr N \<Longrightarrow> automaton_of P T = N"
  by (simp add: automaton_of_def)

lemma TransitionFinder_in_edges:
  "match_any N c \<Longrightarrow> TransitionFinder c q (edges N) \<in> next_node ` set (edges N)"
proof -
  assume "match_any N c"
  then obtain e where f: "find (\<lambda>e. check e c) (edges N) = Some e"
    by (auto simp: match_any_find)
  then have "e \<in> set (edges N)"
    by (auto simp: find_Some_iff)
  then show ?thesis
    by (simp add: TransitionFinder_find f)
qed

lemma CTDFARunner_run_in_closed:
  assumes closed: "\<And>T. T \<in> W \<Longrightarrow> \<exists>N. instantiate P T = Inr N \<and> next_node ` set (edges N) \<subseteq> W"
  shows "q \<in> W \<Longrightarrow> CTDFARunner_run_in P q S i = CTDFARunner_run (automaton_of P) q S i"
proof (induction "length S - i" arbitrary: i q)
  case 0
  then show ?case
    by (subst CTDFARunner_run_in.simps, subst CTDFARunner_run.simps) simp
next
  case (Suc k)
  then have k: "k = length S - Suc i" by simp
  from closed [OF Suc.prems] obtain N where
    N: "instantiate P q = Inr N" and sub: "next_node ` set (edges N) \<subseteq> W"
    by blast
  have a: "automaton_of P q = N"
    using N by (rule automaton_of_instantiate)
  have step: "CTDFARunner_run_in P (TransitionFinder (S ! i) q (edges N)) S (Suc i) =
      CTDFARunner_run (automaton_of P) (TransitionFinder (S ! i) q (edges N)) S (Suc i)"
    if "match_any N (S ! i)"
    using Suc.hyps(1) [OF k] TransitionFinder_in_edges [OF that, of q] sub by blast
  show ?case
    by (subst CTDFARunner_run_in.simps, subst CTDFARunner_run.simps)
       (simp add: N a Let_def Node_next_def step)
qed

lemma RTDFARunner_instantiated_closed:
  assumes closed: "\<And>T. T \<in> W \<Longrightarrow> \<exists>N. instantiate P T = Inr N \<and> next_node ` set (edges N) \<subseteq> W"
    and start: "start \<in> W"
  shows "T \<in> RTDFARunner_instantiated P start \<Longrightarrow> T \<in> W"
proof (induction rule: RTDFARunner_instantiated.induct)
  case start
  then show ?case by (rule assms(2))
next
  case (helper T N e)
  from closed [OF helper.IH] helper.hyps(2,3) show ?case by auto
qed

lemma program_evaluate_dynamic_rejected:
  "T \<in> RTDFARunner_instantiated P start \<Longrightarrow> instantiate P T = Inl err \<Longrightarrow>
   program_evaluate_dynamic P start input = None"
proof -
  assume T: "T \<in> RTDFARunner_instantiated P start" and err: "instantiate P T = Inl err"
  have "\<not> (\<forall>T\<in>RTDFARunner_instantiated P start. \<exists>N. instantiate P T = Inr N)"
  proof
    assume "\<forall>T\<in>RTDFARunner_instantiated P start. \<exists>N. instantiate P T = Inr N"
    with T obtain N where "instantiate P T = Inr N" by blast
    with err show False by simp
  qed
  then show ?thesis
    by (simp add: program_evaluate_dynamic_def)
qed

lemmas program_simps =
  program_evaluate_static_def instantiate_def Node_def CTDFARunner_run_in.simps
  literal_eq match_any_def check_def NUL_def

lemmas eval_simps =
  evaluate_static_def literal_eq RTDFARunner_run_def RTDFARunner_helper_def
  CTDFARunner_run_step dispatch_step check_def NUL_def

section \<open>Agreement of the two runners\<close>

text \<open>
  On \<open>DFA_NUL\<close>, where no state has two edges with the same label, and the input that
  consists of one NUL character, the compile-time runner stops at once and returns the
  accept flag of \<open>P0\<close>, false, while the run-time runner follows the edge labelled NUL
  and accepts in \<open>P1\<close>.
\<close>

theorem agreement_fails_on_NUL:
  "distinct (map label (edges (DFA_NUL P0))) \<and>
   distinct (map label (edges (DFA_NUL P1))) \<and>
   evaluate_static DFA_NUL P0 [NUL] = Inr False \<and>
   RTDFARunner_run DFA_NUL P0 [NUL] = True"
  by (simp add: evaluate_static_def literal_eq RTDFARunner_run_def RTDFARunner_helper_def
      CTDFARunner_run_step dispatch_step check_def)

text \<open>
  C1, as amended.  For every automaton in which no state has two edges with the same
  label, and for every string that contains no NUL character, the compile-time runner on
  the literal and the run-time runner on the string return the same verdict.
\<close>

theorem agreement:
  assumes "\<And>q. distinct (map label (edges (A q)))" and "NUL \<notin> set s"
  shows "evaluate_static A start s = Inr (RTDFARunner_run A start s)"
  using assms(2) by (rule runners_agree)

theorem agreement_witness:
  "(\<forall>q. distinct (map label (edges (DFA_01_STAR q)))) \<and> NUL \<notin> set ''0101'' \<and>
   evaluate_static DFA_01_STAR q4.Q0 ''0101'' = Inr (RTDFARunner_run DFA_01_STAR q4.Q0 ''0101'')"
proof -
  have d: "distinct (map label (edges (DFA_01_STAR q)))" for q
    by (cases q) simp_all
  have n: "NUL \<notin> set ''0101''"
    by (simp add: NUL_def)
  from d n agreement [of DFA_01_STAR "''0101''" q4.Q0, OF d n] show ?thesis
    by blast
qed

section \<open>The algorithm of the run-time runner\<close>

text \<open>
  C3.  At a position of the input, a natural number, \<open>dispatch\<close> returns the accept
  flag of the node when the position is not below the length of the input; otherwise it
  returns what the evaluation from the destination of the first edge that matches the
  character at the position returns at the next position, when there is such an edge, and
  false when no edge matches, with no further call.
\<close>

theorem dispatch_algorithm:
  "dispatch A N input (int position) =
     (if length input \<le> position then accept (A N)
      else case find (\<lambda>e. check e (input ! position)) (edges (A N)) of
             Some e \<Rightarrow> dispatch A (next_node e) input (int position + 1)
           | None \<Rightarrow> False)"
  by (subst dispatch_step) simp

section \<open>The examples of the source\<close>

text \<open>
  C8.  On the four states of \<^verbatim>\<open>DFA_01_STAR\<close> both runners accept the empty string,
  \<^verbatim>\<open>01\<close> and \<^verbatim>\<open>0101\<close> and reject \<^verbatim>\<open>011\<close> and \<^verbatim>\<open>x\<close>; on
  \<^verbatim>\<open>DFA_BRANCH\<close> both reject the empty string and accept \<^verbatim>\<open>0\<close> and \<^verbatim>\<open>1\<close>.
\<close>

theorem fixtures:
  "evaluate_static DFA_01_STAR q4.Q0 '''' = Inr True \<and>
   evaluate_static DFA_01_STAR q4.Q0 ''01'' = Inr True \<and>
   evaluate_static DFA_01_STAR q4.Q0 ''0101'' = Inr True \<and>
   evaluate_static DFA_01_STAR q4.Q0 ''011'' = Inr False \<and>
   evaluate_static DFA_01_STAR q4.Q0 ''x'' = Inr False \<and>
   evaluate_static DFA_BRANCH q3.Q0 '''' = Inr False \<and>
   evaluate_static DFA_BRANCH q3.Q0 ''0'' = Inr True \<and>
   evaluate_static DFA_BRANCH q3.Q0 ''1'' = Inr True \<and>
   RTDFARunner_run DFA_01_STAR q4.Q0 '''' \<and>
   RTDFARunner_run DFA_01_STAR q4.Q0 ''01'' \<and>
   RTDFARunner_run DFA_01_STAR q4.Q0 ''0101'' \<and>
   \<not> RTDFARunner_run DFA_01_STAR q4.Q0 ''011'' \<and>
   \<not> RTDFARunner_run DFA_01_STAR q4.Q0 ''x'' \<and>
   \<not> RTDFARunner_run DFA_BRANCH q3.Q0 '''' \<and>
   RTDFARunner_run DFA_BRANCH q3.Q0 ''0'' \<and>
   RTDFARunner_run DFA_BRANCH q3.Q0 ''1''"
  by (simp add: eval_simps)

section \<open>First match\<close>

text \<open>
  C2.  Let a state declare an edge \<open>e1\<close> with the label \<open>c\<close>, no edge with that
  label before it, and after it an edge \<open>e2\<close> with the same label and another
  destination.  Then the resolver \<^verbatim>\<open>Node::next<c>\<close> yields the destination of
  \<open>e1\<close>, not that of \<open>e2\<close>; the fold of \<^verbatim>\<open>dispatch\<close> calls the helper of the
  destination of \<open>e1\<close>; and a step of either runner that consumes \<open>c\<close> continues from
  the destination of \<open>e1\<close> at the next position.
\<close>

theorem first_match_priority:
  assumes "edges (A N) = pre @ e1 # post"
    and "\<forall>e\<in>set pre. label e \<noteq> c"
    and "label e1 = c"
    and "e2 \<in> set post" and "label e2 = c" and "next_node e2 \<noteq> next_node e1"
  shows "Node_next A N c = next_node e1 \<and>
         Node_next A N c \<noteq> next_node e2 \<and>
         dispatch_fold helper c (edges (A N)) result = (True, helper (next_node e1)) \<and>
         (INDEX < length S \<and> S ! INDEX = c \<and> c \<noteq> NUL \<longrightarrow>
            CTDFARunner_run A N S INDEX = CTDFARunner_run A (next_node e1) S (INDEX + 1)) \<and>
         (position < length input \<and> input ! position = c \<longrightarrow>
            dispatch A N input (int position) = dispatch A (next_node e1) input (int position + 1))"
proof -
  have f: "find (\<lambda>e. check e c) (edges (A N)) = Some e1"
    using find_first [of pre e1 post] assms(1-3) by simp
  have 1: "Node_next A N c = next_node e1"
    by (simp add: Node_next_def TransitionFinder_find f)
  have 2: "Node_next A N c \<noteq> next_node e2"
    using 1 assms(6) by simp
  have 3: "dispatch_fold helper c (edges (A N)) result = (True, helper (next_node e1))"
    by (simp add: dispatch_fold_find f)
  have 4: "CTDFARunner_run A N S INDEX = CTDFARunner_run A (next_node e1) S (INDEX + 1)"
    if "INDEX < length S \<and> S ! INDEX = c \<and> c \<noteq> NUL"
    by (subst CTDFARunner_run_step) (use that f in simp)
  have 5: "dispatch A N input (int position) = dispatch A (next_node e1) input (int position + 1)"
    if "position < length input \<and> input ! position = c"
    by (subst dispatch_step) (use that f in simp)
  from 1 2 3 4 5 show ?thesis by blast
qed

theorem first_match_priority_witness:
  "edges (DFA_DUP D0) = [] @ Edge CHR ''a'' D1 # [Edge CHR ''a'' D2, Edge CHR ''b'' D0] \<and>
   Edge CHR ''a'' D2 \<in> set [Edge CHR ''a'' D2, Edge CHR ''b'' D0] \<and>
   Node_next DFA_DUP D0 CHR ''a'' = D1 \<and>
   Node_next DFA_DUP D0 CHR ''a'' \<noteq> D2 \<and>
   dispatch_fold (\<lambda>n. n) CHR ''a'' (edges (DFA_DUP D0)) D0 = (True, D1) \<and>
   CTDFARunner_run DFA_DUP D0 (literal ''a'') 0 = CTDFARunner_run DFA_DUP D1 (literal ''a'') 1 \<and>
   dispatch DFA_DUP D0 ''a'' 0 = dispatch DFA_DUP D1 ''a'' 1"
proof -
  have h1: "edges (DFA_DUP D0) = [] @ Edge CHR ''a'' D1 # [Edge CHR ''a'' D2, Edge CHR ''b'' D0]"
    by simp
  have h2: "\<forall>e\<in>set []. label e \<noteq> CHR ''a''"
    by simp
  have h3: "label (Edge CHR ''a'' D1) = CHR ''a''"
    by simp
  have h4: "Edge CHR ''a'' D2 \<in> set [Edge CHR ''a'' D2, Edge CHR ''b'' D0]"
    by simp
  have h5: "label (Edge CHR ''a'' D2) = CHR ''a''"
    by simp
  have h6: "next_node (Edge CHR ''a'' D2) \<noteq> next_node (Edge CHR ''a'' D1)"
    by simp
  from first_match_priority [where A = DFA_DUP and N = D0 and pre = "[]"
      and ?e1.0 = "Edge CHR ''a'' D1" and post = "[Edge CHR ''a'' D2, Edge CHR ''b'' D0]"
      and c = "CHR ''a''" and ?e2.0 = "Edge CHR ''a'' D2" and helper = "\<lambda>n. n" and result = D0
      and INDEX = 0 and S = "literal ''a''" and position = 0 and input = "''a''",
      OF h1 h2 h3 h4 h5 h6] h1 h4
  show ?thesis
    by (simp add: literal_eq NUL_def)
qed

text \<open>
  C6.  \<^verbatim>\<open>match_any<c>\<close> holds exactly when the scan for the first edge whose check
  holds finds one, which is also the value of the fold of \<^verbatim>\<open>dispatch\<close>; the resolver
  and the fold both go to the destination of that first edge.  So on every automaton,
  also with several edges of one label on a state, the two runners agree on every string
  without a NUL character.
\<close>

theorem match_any_is_first_match:
  "match_any (A N) c = (find (\<lambda>e. check e c) (edges (A N)) \<noteq> None) \<and>
   fst (dispatch_fold helper c (edges (A N)) result) = match_any (A N) c \<and>
   Node_next A N c = (case find (\<lambda>e. check e c) (edges (A N)) of Some e \<Rightarrow> next_node e | None \<Rightarrow> N) \<and>
   snd (dispatch_fold helper c (edges (A N)) result) =
     (case find (\<lambda>e. check e c) (edges (A N)) of Some e \<Rightarrow> helper (next_node e) | None \<Rightarrow> result) \<and>
   (NUL \<notin> set s \<longrightarrow> evaluate_static A N s = Inr (RTDFARunner_run A N s))"
proof -
  have 1: "match_any (A N) c = (find (\<lambda>e. check e c) (edges (A N)) \<noteq> None)"
    by (rule match_any_find)
  have 2: "fst (dispatch_fold helper c (edges (A N)) result) = match_any (A N) c"
    by (simp add: match_any_find dispatch_fold_find split: option.splits)
  have 3: "Node_next A N c = (case find (\<lambda>e. check e c) (edges (A N)) of Some e \<Rightarrow> next_node e | None \<Rightarrow> N)"
    by (simp add: Node_next_def TransitionFinder_find split: option.splits)
  have 4: "snd (dispatch_fold helper c (edges (A N)) result) =
     (case find (\<lambda>e. check e c) (edges (A N)) of Some e \<Rightarrow> helper (next_node e) | None \<Rightarrow> result)"
    by (simp add: dispatch_fold_find split: option.splits)
  have 5: "evaluate_static A N s = Inr (RTDFARunner_run A N s)" if "NUL \<notin> set s"
    using that by (rule runners_agree)
  from 1 2 3 4 5 show ?thesis by blast
qed

theorem match_any_is_first_match_witness:
  "NUL \<notin> set ''ba'' \<and>
   match_any (DFA_DUP D0) CHR ''a'' \<and>
   Node_next DFA_DUP D0 CHR ''a'' = D1 \<and>
   evaluate_static DFA_DUP D0 ''ba'' = Inr False \<and> RTDFARunner_run DFA_DUP D0 ''ba'' = False"
proof -
  have n: "NUL \<notin> set ''ba''"
    by (simp add: NUL_def)
  have r: "RTDFARunner_run DFA_DUP D0 ''ba'' = False"
    by (simp add: eval_simps)
  from match_any_is_first_match [of DFA_DUP D0 "CHR ''a''" "\<lambda>n. n" D0 "''ba''"] n r
  show ?thesis by (simp add: check_def)
qed

text \<open>
  C10.  When no edge of \<open>N\<close> matches \<open>c\<close>, \<^verbatim>\<open>Node::next<c>\<close> is \<open>N\<close> itself;
  when some edge matches, it is the destination of a matching edge.  In the frames of a
  compile-time evaluation, every frame after the first was reached from the frame before
  it through \<^verbatim>\<open>next<c>\<close> at a node where \<^verbatim>\<open>match_any<c>\<close> holds, \<open>c\<close> being the
  character at the position of that frame: the case without a match never yields a frame.
\<close>

theorem resolver_fallback:
  "(\<not> match_any (A N) c \<longrightarrow> Node_next A N c = N) \<and>
   (match_any (A N) c \<longrightarrow> (\<exists>e\<in>set (edges (A N)). check e c \<and> Node_next A N c = next_node e)) \<and>
   (Suc k < length (CTDFARunner_frames A N S INDEX) \<longrightarrow>
      match_any (A (fst (CTDFARunner_frames A N S INDEX ! k)))
        (S ! snd (CTDFARunner_frames A N S INDEX ! k)) \<and>
      fst (CTDFARunner_frames A N S INDEX ! Suc k) =
        Node_next A (fst (CTDFARunner_frames A N S INDEX ! k))
          (S ! snd (CTDFARunner_frames A N S INDEX ! k)))"
proof -
  have 1: "Node_next A N c = N" if "\<not> match_any (A N) c"
    using that by (simp add: match_any_find Node_next_def TransitionFinder_find)
  from 1 match_any_next [of A N c] CTDFARunner_frames_advance [of k A N S INDEX]
  show ?thesis by blast
qed

theorem resolver_fallback_witness:
  "\<not> match_any (DFA_01_STAR q4.Q0) CHR ''x'' \<and> Node_next DFA_01_STAR q4.Q0 CHR ''x'' = q4.Q0 \<and>
   match_any (DFA_01_STAR q4.Q0) CHR ''0'' \<and> Node_next DFA_01_STAR q4.Q0 CHR ''0'' = q4.Q1 \<and>
   CTDFARunner_frames DFA_01_STAR q4.Q0 (literal ''01'') 0 = [(q4.Q0, 0), (q4.Q1, 1), (q4.Q2, 2)] \<and>
   Suc 0 < length (CTDFARunner_frames DFA_01_STAR q4.Q0 (literal ''01'') 0) \<and>
   fst (CTDFARunner_frames DFA_01_STAR q4.Q0 (literal ''01'') 0 ! Suc 0) =
     Node_next DFA_01_STAR q4.Q0 (literal ''01'' ! 0)"
proof -
  have a: "\<not> match_any (DFA_01_STAR q4.Q0) CHR ''x''"
    by (simp add: match_any_def check_def)
  have b: "match_any (DFA_01_STAR q4.Q0) CHR ''0''"
    by (simp add: match_any_def check_def)
  have f: "CTDFARunner_frames DFA_01_STAR q4.Q0 (literal ''01'') 0 = [(q4.Q0, 0), (q4.Q1, 1), (q4.Q2, 2)]"
    by (simp add: literal_eq CTDFARunner_frames_step check_def NUL_def)
  have l: "Suc 0 < length (CTDFARunner_frames DFA_01_STAR q4.Q0 (literal ''01'') 0)"
    by (simp add: f)
  have n: "Node_next DFA_01_STAR q4.Q0 CHR ''0'' = q4.Q1"
    by (simp add: Node_next_def check_def)
  from resolver_fallback [of DFA_01_STAR q4.Q0 "CHR ''x''" 0 "literal ''01''" 0]
    resolver_fallback [of DFA_01_STAR q4.Q0 "CHR ''0''" 0 "literal ''01''" 0] a b l
  have "Node_next DFA_01_STAR q4.Q0 CHR ''x'' = q4.Q0 \<and>
        fst (CTDFARunner_frames DFA_01_STAR q4.Q0 (literal ''01'') 0 ! Suc 0) =
          Node_next DFA_01_STAR (fst (CTDFARunner_frames DFA_01_STAR q4.Q0 (literal ''01'') 0 ! 0))
            (literal ''01'' ! snd (CTDFARunner_frames DFA_01_STAR q4.Q0 (literal ''01'') 0 ! 0))"
    by blast
  with a b f l n show ?thesis
    by simp
qed

section \<open>The NUL character\<close>

text \<open>
  On \<^verbatim>\<open>DFA_01_STAR\<close> and the literal of the two characters NUL and \<^verbatim>\<open>1\<close>, the
  compile-time runner returns the accept flag of \<^verbatim>\<open>Q0\<close> at position 0, before the
  end of the string, although no edge of \<^verbatim>\<open>Q0\<close> matches the character there.
\<close>

theorem accept_before_end_of_literal:
  "(0::nat) < length [NUL, CHR ''1''] \<and>
   [NUL, CHR ''1''] ! 0 = NUL \<and>
   \<not> match_any (DFA_01_STAR q4.Q0) ([NUL, CHR ''1''] ! 0) \<and>
   accept (DFA_01_STAR q4.Q0) \<and>
   CTDFARunner_run DFA_01_STAR q4.Q0 (literal [NUL, CHR ''1'']) 0 = Inr True \<and>
   CTDFARunner_run DFA_01_STAR q4.Q0 (literal [NUL, CHR ''1'']) 0 \<noteq> Inr False"
  by (simp add: literal_eq CTDFARunner_run_step match_any_find check_def NUL_def)

text \<open>
  C4, as amended.  On the literal of a string \<open>s\<close>, the verdict of the compile-time
  runner at the end of the string (position \<open>length s\<close>) is the accept flag of the
  current state.  Before the end, it returns the accept flag exactly at the positions
  that hold a NUL character; at a position that holds any other character it advances
  when \<^verbatim>\<open>match_any\<close> holds and returns false otherwise, without the accept flag.
\<close>

theorem static_end_of_string:
  "CTDFARunner_run A CURRENT (literal s) (length s) = Inr (accept (A CURRENT)) \<and>
   (INDEX < length s \<and> s ! INDEX = NUL \<longrightarrow>
      CTDFARunner_run A CURRENT (literal s) INDEX = Inr (accept (A CURRENT))) \<and>
   (INDEX < length s \<and> s ! INDEX \<noteq> NUL \<longrightarrow>
      CTDFARunner_run A CURRENT (literal s) INDEX =
        (if match_any (A CURRENT) (s ! INDEX)
         then CTDFARunner_run A (Node_next A CURRENT (s ! INDEX)) (literal s) (INDEX + 1)
         else Inr False))"
proof -
  have 1: "CTDFARunner_run A CURRENT (literal s) (length s) = Inr (accept (A CURRENT))"
    by (subst CTDFARunner_run.simps) (simp add: literal_eq)
  have 2: "CTDFARunner_run A CURRENT (literal s) INDEX = Inr (accept (A CURRENT))"
    if "INDEX < length s \<and> s ! INDEX = NUL"
    by (subst CTDFARunner_run.simps) (use that in \<open>simp add: literal_eq nth_append\<close>)
  have 3: "CTDFARunner_run A CURRENT (literal s) INDEX =
        (if match_any (A CURRENT) (s ! INDEX)
         then CTDFARunner_run A (Node_next A CURRENT (s ! INDEX)) (literal s) (INDEX + 1)
         else Inr False)"
    if "INDEX < length s \<and> s ! INDEX \<noteq> NUL"
    by (subst CTDFARunner_run.simps) (use that in \<open>simp add: literal_eq nth_append\<close>)
  from 1 2 3 show ?thesis by blast
qed

theorem static_end_of_string_witness:
  "(0::nat) < length [NUL, CHR ''1''] \<and> [NUL, CHR ''1''] ! 0 = NUL \<and>
   (1::nat) < length ''01'' \<and> ''01'' ! 1 \<noteq> NUL \<and>
   CTDFARunner_run DFA_01_STAR q4.Q0 (literal [NUL, CHR ''1'']) 0 = Inr True \<and>
   CTDFARunner_run DFA_01_STAR q4.Q1 (literal ''01'') 1 =
     CTDFARunner_run DFA_01_STAR q4.Q2 (literal ''01'') (1 + 1) \<and>
   CTDFARunner_run DFA_01_STAR q4.Q2 (literal ''01'') (length ''01'') = Inr True"
proof -
  have a: "(0::nat) < length [NUL, CHR ''1''] \<and> [NUL, CHR ''1''] ! 0 = NUL"
    by simp
  have b: "(1::nat) < length ''01'' \<and> ''01'' ! 1 \<noteq> NUL"
    by (simp add: NUL_def)
  have m: "match_any (DFA_01_STAR q4.Q1) (''01'' ! 1)"
    by (simp add: match_any_def check_def)
  have n: "Node_next DFA_01_STAR q4.Q1 (''01'' ! 1) = q4.Q2"
    by (simp add: Node_next_def check_def)
  have w1: "CTDFARunner_run DFA_01_STAR q4.Q0 (literal [NUL, CHR ''1'']) 0 =
      Inr (accept (DFA_01_STAR q4.Q0))"
    using static_end_of_string [of DFA_01_STAR q4.Q0 "[NUL, CHR ''1'']" 0] a by blast
  have w2: "CTDFARunner_run DFA_01_STAR q4.Q1 (literal ''01'') 1 =
      (if match_any (DFA_01_STAR q4.Q1) (''01'' ! 1)
       then CTDFARunner_run DFA_01_STAR (Node_next DFA_01_STAR q4.Q1 (''01'' ! 1)) (literal ''01'') (1 + 1)
       else Inr False)"
    using static_end_of_string [of DFA_01_STAR q4.Q1 "''01''" 1] b by blast
  have w3: "CTDFARunner_run DFA_01_STAR q4.Q2 (literal ''01'') (length ''01'') =
      Inr (accept (DFA_01_STAR q4.Q2))"
    using static_end_of_string [of DFA_01_STAR q4.Q2 "''01''" 0] by blast
  have w2': "CTDFARunner_run DFA_01_STAR q4.Q1 (literal ''01'') 1 =
      CTDFARunner_run DFA_01_STAR q4.Q2 (literal ''01'') (1 + 1)"
    using w2 m unfolding n by (simp only: if_True)
  have w1': "CTDFARunner_run DFA_01_STAR q4.Q0 (literal [NUL, CHR ''1'']) 0 = Inr True"
    using w1 by simp
  have w3': "CTDFARunner_run DFA_01_STAR q4.Q2 (literal ''01'') (length ''01'') = Inr True"
    using w3 by (simp only: DFA_01_STAR.simps node.simps)
  from a b w1' w2' w3' show ?thesis
    by blast
qed

text \<open>
  C5.  The compile-time runner takes the first NUL of the literal for the end of the
  input: what follows it is ignored, and at its position the verdict is the accept flag
  of the current state.  The run-time runner treats a NUL of the input as any other
  character, matched against the labels of the edges.  The two verdicts differ on
  \<open>DFA_NUL\<close> at the string of one NUL, and on \<^verbatim>\<open>DFA_01_STAR\<close> at \<^verbatim>\<open>01\<close>, NUL,
  \<^verbatim>\<open>1\<close>.
\<close>

theorem NUL_handling:
  "evaluate_static A CURRENT (pre @ NUL # rest) = evaluate_static A CURRENT pre \<and>
   CTDFARunner_run A CURRENT (literal (pre @ NUL # rest)) (length pre) = Inr (accept (A CURRENT)) \<and>
   dispatch A CURRENT (pre @ NUL # rest) (int (length pre)) =
     (case find (\<lambda>e. check e NUL) (edges (A CURRENT)) of
        Some e \<Rightarrow> dispatch A (next_node e) (pre @ NUL # rest) (int (length pre) + 1)
      | None \<Rightarrow> False) \<and>
   (RTDFARunner_run DFA_NUL P0 [NUL] = True \<and> evaluate_static DFA_NUL P0 [NUL] = Inr False) \<and>
   (RTDFARunner_run DFA_01_STAR q4.Q0 [CHR ''0'', CHR ''1'', NUL, CHR ''1''] = False \<and>
    evaluate_static DFA_01_STAR q4.Q0 [CHR ''0'', CHR ''1'', NUL, CHR ''1''] = Inr True)"
proof -
  have "takeWhile (\<lambda>c. c \<noteq> NUL) (pre @ NUL # rest) = takeWhile (\<lambda>c. c \<noteq> NUL) pre"
    by (induction pre) simp_all
  then have 1: "evaluate_static A CURRENT (pre @ NUL # rest) = evaluate_static A CURRENT pre"
    by (simp only: evaluate_static_walk)
  have 2: "CTDFARunner_run A CURRENT (literal (pre @ NUL # rest)) (length pre) = Inr (accept (A CURRENT))"
    by (subst CTDFARunner_run_step) (simp add: literal_eq nth_append)
  have 3: "dispatch A CURRENT (pre @ NUL # rest) (int (length pre)) =
     (case find (\<lambda>e. check e NUL) (edges (A CURRENT)) of
        Some e \<Rightarrow> dispatch A (next_node e) (pre @ NUL # rest) (int (length pre) + 1)
      | None \<Rightarrow> False)"
    by (subst dispatch_step) (simp add: nth_append split: option.splits)
  have 4: "RTDFARunner_run DFA_NUL P0 [NUL] = True \<and> evaluate_static DFA_NUL P0 [NUL] = Inr False"
    by (simp add: evaluate_static_def literal_eq RTDFARunner_run_def RTDFARunner_helper_def
      CTDFARunner_run_step dispatch_step check_def)
  have 5: "RTDFARunner_run DFA_01_STAR q4.Q0 [CHR ''0'', CHR ''1'', NUL, CHR ''1''] = False \<and>
    evaluate_static DFA_01_STAR q4.Q0 [CHR ''0'', CHR ''1'', NUL, CHR ''1''] = Inr True"
    by (simp add: eval_simps)
  from 1 2 3 4 5 show ?thesis by blast
qed

section \<open>Termination and depth\<close>

text \<open>
  C7.  Both runners are total functions (their termination is proved where they are
  defined, with the distance of the position to the end of the input as measure).  For an
  input of length \<open>N\<close>, on any automaton, an evaluation has at most \<open>N + 1\<close> frames;
  the positions of the frames are \<open>0, 1, 2, \<dots>\<close> in this order, so each call is one
  position after its caller; the position of the innermost frame is at most \<open>N\<close>; and
  the verdict of the evaluation is the one the innermost frame returns.
\<close>

theorem termination_bound:
  "length (dispatch_frames A N input 0) \<le> length input + 1 \<and>
   map snd (dispatch_frames A N input 0) = map int [0 ..< length (dispatch_frames A N input 0)] \<and>
   snd (last (dispatch_frames A N input 0)) \<le> int (length input) \<and>
   RTDFARunner_run A N input =
     (case last (dispatch_frames A N input 0) of (n, index) \<Rightarrow> int (length input) \<le> index \<and> accept (A n)) \<and>
   length (CTDFARunner_frames A N (literal input) 0) \<le> length input + 1 \<and>
   map snd (CTDFARunner_frames A N (literal input) 0) = [0 ..< length (CTDFARunner_frames A N (literal input) 0)] \<and>
   snd (last (CTDFARunner_frames A N (literal input) 0)) \<le> length input \<and>
   evaluate_static A N input =
     (case last (CTDFARunner_frames A N (literal input) 0) of (n, INDEX) \<Rightarrow>
        Inr (literal input ! INDEX = NUL \<and> accept (A n)))"
proof -
  let ?d = "dispatch_frames A N input 0"
  let ?c = "CTDFARunner_frames A N (literal input) 0"
  have d1: "length ?d \<le> length input + 1"
    using dispatch_frames_length [of 0 input A N] by simp
  have d2: "map snd ?d = map int [0 ..< length ?d]"
    using dispatch_frames_positions [of A N input 0] by simp
  have dne: "?d \<noteq> []"
    by (subst dispatch_frames_step) simp
  have "snd (last ?d) = last (map snd ?d)"
    using dne by (simp add: last_map)
  also have "\<dots> = int (length ?d - 1)"
    using dne by (simp add: d2 last_map del: upt_Suc)
  finally have dl: "snd (last ?d) = int (length ?d - 1)" .
  have d3: "snd (last ?d) \<le> int (length input)"
    using d1 dl by simp
  have d3': "0 \<le> snd (last ?d)"
    using dl by simp
  have d4: "RTDFARunner_run A N input =
     (case last ?d of (n, index) \<Rightarrow> int (length input) \<le> index \<and> accept (A n))"
    using dispatch_frames_last [of A N input 0] d3'
    by (auto simp: RTDFARunner_run_def RTDFARunner_helper_def split: prod.splits)
  have c1: "length ?c \<le> length input + 1"
    using CTDFARunner_frames_length [of 0 input A N] by (simp add: literal_eq)
  have c2: "map snd ?c = [0 ..< length ?c]"
    using CTDFARunner_frames_positions [of A N "literal input" 0] by simp
  have cne: "?c \<noteq> []"
    by (subst CTDFARunner_frames_step) simp
  have "snd (last ?c) = last (map snd ?c)"
    using cne by (simp add: last_map)
  also have "\<dots> = length ?c - 1"
    using cne by (simp add: c2 del: upt_Suc)
  finally have cl: "snd (last ?c) = length ?c - 1" .
  have c3: "snd (last ?c) \<le> length input"
    using c1 cl by simp
  have c4: "evaluate_static A N input =
     (case last ?c of (n, INDEX) \<Rightarrow> Inr (literal input ! INDEX = NUL \<and> accept (A n)))"
    using CTDFARunner_frames_last [of A N "literal input" 0] c3
    by (auto simp: evaluate_static_def literal_eq split: prod.splits)
  from d1 d2 d3 d4 c1 c2 c3 c4 show ?thesis by blast
qed

section \<open>Malformed nodes\<close>

text \<open>
  In \<open>BAD_EDGE\<close> the pack of \<open>B0\<close> holds one \<^verbatim>\<open>Edge\<close>, to \<^verbatim>\<open>int\<close>: the
  struct is defined and \<open>B0\<close> instantiated without an error, and both runners fail on
  the input \<^verbatim>\<open>0\<close>, which leads to \<^verbatim>\<open>int\<close>.  In \<open>LAZY\<close> the alias \<open>L1\<close>
  names a node whose pack holds \<^verbatim>\<open>int\<close>: the compile-time runner returns a verdict
  on the empty string from \<open>L0\<close>, and the static assertion of \<open>L1\<close> fails only in the
  evaluation of \<^verbatim>\<open>0\<close>, which gets there.
\<close>

theorem evaluation_fails_after_construction:
  "struct_definitions BAD_EDGE = Inr () \<and>
   is_edge_v (Edge_type (Edge CHR ''0'' B_int)) \<and>
   instantiate BAD_EDGE B0 = Inr \<lparr>accept = False, edges = [Edge CHR ''0'' B_int]\<rparr> \<and>
   program_evaluate_static BAD_EDGE B0 ''0'' = Inl not_a_node \<and>
   program_evaluate_dynamic BAD_EDGE B0 ''0'' = None \<and>
   struct_definitions LAZY = Inr () \<and>
   Node True ([Other_type] :: l2 cpp_type list) = Inl static_assert_failed \<and>
   program_evaluate_static LAZY L0 '''' = Inr False \<and>
   program_evaluate_static LAZY L0 ''0'' = Inl static_assert_failed"
proof -
  have 1: "struct_definitions BAD_EDGE = Inr ()"
    by (simp add: BAD_EDGE_def Node_def)
  have 2: "instantiate BAD_EDGE B0 = Inr \<lparr>accept = False, edges = [Edge CHR ''0'' B_int]\<rparr>"
    by (simp add: BAD_EDGE_def instantiate_def Node_def)
  have 3: "program_evaluate_static BAD_EDGE B0 ''0'' = Inl not_a_node"
    by (simp add: BAD_EDGE_def program_simps)
  have "B0 \<in> RTDFARunner_instantiated BAD_EDGE B0"
    by (rule RTDFARunner_instantiated.start)
  then have "next_node (Edge CHR ''0'' B_int) \<in> RTDFARunner_instantiated BAD_EDGE B0"
    using 2 by (rule RTDFARunner_instantiated.helper) simp
  moreover have "instantiate BAD_EDGE B_int = Inl not_a_node"
    by (simp add: BAD_EDGE_def instantiate_def)
  ultimately have 4: "program_evaluate_dynamic BAD_EDGE B0 ''0'' = None"
    by (simp add: program_evaluate_dynamic_rejected)
  have 5: "struct_definitions LAZY = Inr ()"
    by (simp add: LAZY_def Node_def)
  have 6: "Node True ([Other_type] :: l2 cpp_type list) = Inl static_assert_failed"
    by (simp add: Node_def)
  have 7: "program_evaluate_static LAZY L0 '''' = Inr False"
    by (simp add: LAZY_def program_simps)
  have 8: "program_evaluate_static LAZY L0 ''0'' = Inl static_assert_failed"
    by (simp add: LAZY_def program_simps)
  from 1 2 3 4 5 6 7 8 show ?thesis by simp
qed

text \<open>
  C9, as amended.  Instantiating \<^verbatim>\<open>Node\<close> fails with its static assertion exactly
  when the pack holds a type that is not an \<^verbatim>\<open>Edge\<close>.  A program that defines a
  struct deriving from such a node is rejected whatever it evaluates.  A node that is
  only named is rejected when it is instantiated: the compile-time runner fails at a type
  whose instantiation fails, when its evaluation is there, and a program that calls the
  run-time runner is rejected, for every input, when the instantiation of some type
  reachable from the start fails.  On a program whose struct definitions pass and where
  every type of a set \<open>W\<close> that contains the start is instantiated as a node with the
  destinations of all its edges in \<open>W\<close>, both runners return a verdict on every string,
  the verdict of the runners of the automaton of the program.
\<close>

theorem node_rejected_when_instantiated:
  assumes "struct_definitions P = Inr ()"
    and "start \<in> W"
    and "\<And>T. T \<in> W \<Longrightarrow> \<exists>N. instantiate P T = Inr N \<and> next_node ` set (edges N) \<subseteq> W"
  shows "(Node accept' EDGES = Inl static_assert_failed) = (\<exists>t\<in>set EDGES. \<not> is_edge_v t) \<and>
    ((T', Struct accept' EDGES) \<in> set P' \<and> (\<exists>t\<in>set EDGES. \<not> is_edge_v t) \<longrightarrow>
       program_evaluate_static P' start' s' = Inl static_assert_failed \<and>
       program_evaluate_dynamic P' start' s' = None) \<and>
    (instantiate P' T' = Inl err \<and> INDEX < length S \<longrightarrow> CTDFARunner_run_in P' T' S INDEX = Inl err) \<and>
    (T' \<in> RTDFARunner_instantiated P' start' \<and> instantiate P' T' = Inl err \<longrightarrow>
       program_evaluate_dynamic P' start' s' = None) \<and>
    program_evaluate_static P start s = evaluate_static (automaton_of P) start s \<and>
    (\<exists>verdict. program_evaluate_static P start s = Inr verdict) \<and>
    program_evaluate_dynamic P start s = Some (RTDFARunner_run (automaton_of P) start s)"
proof -
  have 1: "(Node accept' EDGES = Inl static_assert_failed) = (\<exists>t\<in>set EDGES. \<not> is_edge_v t)"
    by (rule Node_fails_iff)
  have 2: "program_evaluate_static P' start' s' = Inl static_assert_failed \<and>
       program_evaluate_dynamic P' start' s' = None"
    if "(T', Struct accept' EDGES) \<in> set P' \<and> (\<exists>t\<in>set EDGES. \<not> is_edge_v t)"
    using struct_definitions_bad [of T' accept' EDGES P'] that
    by (simp add: program_evaluate_static_def program_evaluate_dynamic_def)
  have 3: "CTDFARunner_run_in P' T' S INDEX = Inl err"
    if "instantiate P' T' = Inl err \<and> INDEX < length S"
    using that by (simp add: CTDFARunner_run_in_error)
  have 4: "program_evaluate_dynamic P' start' s' = None"
    if "T' \<in> RTDFARunner_instantiated P' start' \<and> instantiate P' T' = Inl err"
    using that by (blast intro: program_evaluate_dynamic_rejected)
  have 5: "program_evaluate_static P start s = evaluate_static (automaton_of P) start s"
    using CTDFARunner_run_in_closed [of W P start "literal s" 0] assms
    by (simp add: program_evaluate_static_def evaluate_static_def)
  have 6: "\<exists>verdict. program_evaluate_static P start s = Inr verdict"
    by (simp add: 5 evaluate_static_walk)
  have "\<forall>T\<in>RTDFARunner_instantiated P start. \<exists>N. instantiate P T = Inr N"
    using RTDFARunner_instantiated_closed [of W P start] assms(2,3) by blast
  then have 7: "program_evaluate_dynamic P start s = Some (RTDFARunner_run (automaton_of P) start s)"
    using assms(1) by (simp add: program_evaluate_dynamic_def)
  from 1 2 3 4 5 6 7 show ?thesis by blast
qed

theorem node_rejected_when_instantiated_witness:
  "struct_definitions DFA_BRANCH_program = Inr () \<and>
   program_evaluate_static DFA_BRANCH_program q3.Q0 ''1'' = Inr True \<and>
   program_evaluate_dynamic DFA_BRANCH_program q3.Q0 ''1'' = Some True \<and>
   Node True ([Other_type] :: s1 cpp_type list) = Inl static_assert_failed \<and>
   program_evaluate_static BAD_STRUCT S0 [] = Inl static_assert_failed \<and>
   program_evaluate_dynamic BAD_STRUCT S0 [] = None \<and>
   instantiate LAZY L1 = Inl static_assert_failed \<and>
   CTDFARunner_run_in LAZY L1 (literal []) 0 = Inl static_assert_failed \<and>
   program_evaluate_dynamic LAZY L0 ''0'' = None"
proof -
  have d: "struct_definitions DFA_BRANCH_program = Inr ()"
    by (simp add: DFA_BRANCH_program_def Node_def)
  have u: "q3.Q0 \<in> UNIV"
    by simp
  have c: "\<exists>N. instantiate DFA_BRANCH_program T = Inr N \<and> next_node ` set (edges N) \<subseteq> UNIV"
    if "T \<in> UNIV" for T
    by (cases T) (simp_all add: DFA_BRANCH_program_def instantiate_def Node_def)
  note inst = node_rejected_when_instantiated [where P = DFA_BRANCH_program and start = q3.Q0
      and W = UNIV and s = "''1''", OF d u c]
  have a: "automaton_of DFA_BRANCH_program = DFA_BRANCH"
  proof
    fix T show "automaton_of DFA_BRANCH_program T = DFA_BRANCH T"
      by (cases T) (simp_all add: automaton_of_def DFA_BRANCH_program_def instantiate_def Node_def)
  qed
  have s1: "(S0, Struct True [Other_type]) \<in> set BAD_STRUCT \<and>
      (\<exists>t\<in>set ([Other_type] :: s1 cpp_type list). \<not> is_edge_v t)"
    by (simp add: BAD_STRUCT_def)
  have i1: "instantiate LAZY L1 = Inl static_assert_failed"
    by (simp add: LAZY_def instantiate_def Node_def)
  have i0: "instantiate LAZY L0 = Inr \<lparr>accept = False, edges = [Edge CHR ''0'' L1]\<rparr>"
    by (simp add: LAZY_def instantiate_def Node_def)
  have "L0 \<in> RTDFARunner_instantiated LAZY L0"
    by (rule RTDFARunner_instantiated.start)
  then have "next_node (Edge CHR ''0'' L1) \<in> RTDFARunner_instantiated LAZY L0"
    using i0 by (rule RTDFARunner_instantiated.helper) simp
  then have r: "L1 \<in> RTDFARunner_instantiated LAZY L0"
    by simp
  have l: "(0::nat) < length (literal [])"
    by (simp add: literal_eq)
  from inst [where P' = BAD_STRUCT and T' = S0 and accept' = True and EDGES = "[Other_type]"
      and start' = S0 and s' = "[]"] s1
  have w1: "Node True ([Other_type] :: s1 cpp_type list) = Inl static_assert_failed \<and>
      program_evaluate_static BAD_STRUCT S0 [] = Inl static_assert_failed \<and>
      program_evaluate_dynamic BAD_STRUCT S0 [] = None \<and>
      program_evaluate_static DFA_BRANCH_program q3.Q0 ''1'' =
        evaluate_static (automaton_of DFA_BRANCH_program) q3.Q0 ''1'' \<and>
      program_evaluate_dynamic DFA_BRANCH_program q3.Q0 ''1'' =
        Some (RTDFARunner_run (automaton_of DFA_BRANCH_program) q3.Q0 ''1'')"
    by blast
  from inst [where P' = LAZY and T' = L1 and err = static_assert_failed and INDEX = 0
      and S = "literal []" and start' = L0 and s' = "''0''"] i1 r l
  have w2: "CTDFARunner_run_in LAZY L1 (literal []) 0 = Inl static_assert_failed \<and>
      program_evaluate_dynamic LAZY L0 ''0'' = None"
    by blast
  have v: "evaluate_static DFA_BRANCH q3.Q0 ''1'' = Inr True \<and> RTDFARunner_run DFA_BRANCH q3.Q0 ''1''"
    by (simp add: eval_simps)
  from d w1 w2 i1 v show ?thesis
    unfolding a by simp
qed

end
